theory Spec2Isabelle
  imports Main "HOL-Library.Word"
begin

section \<open>Backup codes: modules/2fa/backup/backup.go\<close>

text \<open>
  The controller of backup.go is embedded function by function. What it calls outside the
  file is a parameter of the model: the random source, the mnemonic codec and the password
  hasher are the fields of a record \<open>Lib\<close>, the persistence interface is a record
  \<open>Storer\<close> of state-passing functions over a store of any type. Go's pairs
  \<open>(value, error)\<close> are pairs whose second component is an \<open>error option\<close>
  (\<open>None\<close> is \<open>nil\<close>). Logging is not modelled.
\<close>

subsection \<open>Constants and data\<close>

type_synonym byte = "8 word"

definition recoveryKeyLen :: nat where
  "recoveryKeyLen = 128 div 8"

definition recoveryNameLen :: nat where
  "recoveryNameLen = 3"

definition numRecoveryKeys :: nat where
  "numRecoveryKeys = 5"

definition backupHashRounds :: nat where
  "backupHashRounds = 12"

datatype error =
    RandError string
  | EntropyError
  | EncodingError string
  | DecodingError string
  | HashError string
  | MismatchError
  | StorageError string

text \<open>
  The libraries backup.go imports. \<open>rand_Read n r\<close> is \<open>rand.Read\<close> on a fresh buffer of
  \<open>n\<close> bytes in the state \<open>r\<close> of the random source: it gives the number of bytes
  the call reports, the buffer afterwards and the error. \<open>ToPhrase\<close> and \<open>FromString\<close> are
  the codec at the English dictionary; a phrase is its list of words.
  \<open>GenerateFromPassword\<close> draws its salt from the random source.
\<close>

record 'r Lib =
  rand_Read :: "nat \<Rightarrow> 'r \<Rightarrow> (nat \<times> byte list \<times> error option) \<times> 'r"
  ToPhrase :: "byte list \<Rightarrow> string list \<times> error option"
  FromString :: "string \<Rightarrow> byte list \<times> error option"
  GenerateFromPassword :: "byte list \<Rightarrow> nat \<Rightarrow> 'r \<Rightarrow> (string \<times> error option) \<times> 'r"
  CompareHashAndPassword :: "string \<Rightarrow> byte list \<Rightarrow> error option"

record BackupKey =
  Name :: string
  Code :: string
  Hash :: string

definition zeroKey :: BackupKey where
  "zeroKey = \<lparr>Name = [], Code = [], Hash = []\<rparr>"

subsection \<open>cryptoBytes\<close>

text \<open>
  The count \<open>n\<close> that \<open>rand.Read\<close> reports is compared with \<open>recoveryKeyLen\<close>,
  whatever \<open>size\<close> is.
\<close>

definition cryptoBytes :: "'r Lib \<Rightarrow> nat \<Rightarrow> 'r \<Rightarrow> (byte list \<times> error option) \<times> 'r" where
  "cryptoBytes lib sz r =
     (case rand_Read lib sz r of
        ((n, buf, Some err), r') \<Rightarrow> ((buf, Some err), r')
      | ((n, buf, None), r') \<Rightarrow>
          if n \<noteq> recoveryKeyLen then ((buf, Some EntropyError), r')
          else ((buf, None), r'))"

subsection \<open>Strings\<close>

text \<open>\<open>strings.Split s " "\<close>: one field more than there are spaces; the empty string has
  one empty field.\<close>

fun Split :: "string \<Rightarrow> string list" where
  "Split [] = [[]]"
| "Split (c # cs) =
     (if c = CHR '' '' then [] # Split cs
      else (case Split cs of [] \<Rightarrow> [[c]] | w # ws \<Rightarrow> (c # w) # ws))"

text \<open>\<open>strings.Join a " "\<close>, which is also \<open>Phrase.String\<close> of the codec.\<close>

fun Join :: "string list \<Rightarrow> string" where
  "Join [] = []"
| "Join [w] = w"
| "Join (w # v # ws) = w @ CHR '' '' # Join (v # ws)"

subsection \<open>The Storer and Code interfaces\<close>

text \<open>
  Modelled from the spec: the record behind the \<open>Code\<close> interface, which is declared
  outside backup.go. The spec gives a code record the fields \<open>userID\<close>, \<open>name\<close>,
  \<open>hashedSecret\<close>, \<open>used\<close> (and a creation time, informational, left out) and the
  methods \<open>GetName\<close>, \<open>IsUsed\<close>, \<open>SetUsed\<close>, \<open>GetHashedSecret\<close>. A \<open>Code\<close> value is
  the row as loaded together with the key the Storer knows it by; \<open>SetUsed\<close> changes the
  loaded value only.
\<close>

record BackupCode =
  userID :: string
  name :: string
  hashedSecret :: string
  used :: bool

type_synonym Code = "nat \<times> BackupCode"

definition GetName :: "Code \<Rightarrow> string" where
  "GetName c = name (snd c)"

definition IsUsed :: "Code \<Rightarrow> bool" where
  "IsUsed c = used (snd c)"

definition SetUsed :: "Code \<Rightarrow> Code" where
  "SetUsed c = (fst c, (snd c)\<lparr>used := True\<rparr>)"

definition GetHashedSecret :: "Code \<Rightarrow> string" where
  "GetHashedSecret c = hashedSecret (snd c)"

text \<open>
  The four methods of the \<open>Storer\<close> interface, over a store of type \<open>'s\<close>. Each may
  change the store and may fail. The first result of \<open>AddBackupCode\<close> and of
  \<open>UpdateBackupCode\<close> is dropped by every caller and is left out. The values a Storer
  returns are taken to be \<open>Code\<close> values, so the type assertions \<open>c.(Code)\<close> succeed.
\<close>

record 's Storer =
  AddBackupCode :: "string \<Rightarrow> string \<Rightarrow> string \<Rightarrow> 's \<Rightarrow> error option \<times> 's"
  GetBackupCodes :: "string \<Rightarrow> 's \<Rightarrow> (Code list \<times> error option) \<times> 's"
  GetBackupCodeByName :: "string \<Rightarrow> string \<Rightarrow> 's \<Rightarrow> (Code option \<times> error option) \<times> 's"
  UpdateBackupCode :: "Code \<Rightarrow> 's \<Rightarrow> error option \<times> 's"

subsection \<open>CreateCodes\<close>

text \<open>
  The first loop, over the indices of \<open>keys\<close>: every failure returns the array as it is
  at that moment, with the error.
\<close>

fun genKeys :: "'r Lib \<Rightarrow> nat list \<Rightarrow> BackupKey list \<Rightarrow> 'r \<Rightarrow> (BackupKey list \<times> error option) \<times> 'r" where
  "genKeys lib [] keys r = ((keys, None), r)"
| "genKeys lib (i # is) keys r =
     (case cryptoBytes lib recoveryKeyLen r of
        ((code, Some err), r1) \<Rightarrow> ((keys, Some err), r1)
      | ((code, None), r1) \<Rightarrow>
     (case cryptoBytes lib recoveryNameLen r1 of
        ((nm, Some err), r2) \<Rightarrow> ((keys, Some err), r2)
      | ((nm, None), r2) \<Rightarrow>
     (case ToPhrase lib code of
        (mnemonicCode, Some err) \<Rightarrow> ((keys, Some err), r2)
      | (mnemonicCode, None) \<Rightarrow>
     (case ToPhrase lib nm of
        (mnemonicName, Some err) \<Rightarrow> ((keys, Some err), r2)
      | (mnemonicName, None) \<Rightarrow>
     (case GenerateFromPassword lib code backupHashRounds r2 of
        ((hash, Some err), r3) \<Rightarrow> ((keys, Some err), r3)
      | ((hash, None), r3) \<Rightarrow>
          genKeys lib is
            (keys[i := \<lparr>Name = Join mnemonicName, Code = Join mnemonicCode, Hash = hash\<rparr>])
            r3)))))"

text \<open>The second loop: one \<open>AddBackupCode\<close> per key, stopping at the first failure.\<close>

fun saveKeys :: "'s Storer \<Rightarrow> string \<Rightarrow> BackupKey list \<Rightarrow> 's \<Rightarrow> error option \<times> 's" where
  "saveKeys S userid [] st = (None, st)"
| "saveKeys S userid (k # ks) st =
     (case AddBackupCode S userid (Name k) (Hash k) st of
        (Some err, st1) \<Rightarrow> (Some err, st1)
      | (None, st1) \<Rightarrow> saveKeys S userid ks st1)"

definition CreateCodes ::
    "'r Lib \<Rightarrow> 's Storer \<Rightarrow> string \<Rightarrow> 'r \<Rightarrow> 's \<Rightarrow> (BackupKey list \<times> error option) \<times> 'r \<times> 's" where
  "CreateCodes lib S userid r st =
     (case genKeys lib [0..<numRecoveryKeys] (replicate numRecoveryKeys zeroKey) r of
        ((keys, Some err), r1) \<Rightarrow> ((keys, Some err), r1, st)
      | ((keys, None), r1) \<Rightarrow>
          (case saveKeys S userid keys st of
             (Some err, st1) \<Rightarrow> ((keys, Some err), r1, st1)
           | (None, st1) \<Rightarrow> ((keys, None), r1, st1)))"

subsection \<open>IsSupported\<close>

fun availableLoop :: "Code list \<Rightarrow> bool \<Rightarrow> bool" where
  "availableLoop [] available = available"
| "availableLoop (c # cs) available =
     availableLoop cs (if \<not> IsUsed c then True else available)"

definition IsSupported :: "'s Storer \<Rightarrow> string \<Rightarrow> 's \<Rightarrow> bool \<times> 's" where
  "IsSupported S userid st =
     (case GetBackupCodes S userid st of
        ((codes, Some err), st1) \<Rightarrow> (False, st1)
      | ((codes, None), st1) \<Rightarrow> (availableLoop codes False, st1))"

subsection \<open>ValidateName\<close>

fun nameLoop :: "string \<Rightarrow> Code list \<Rightarrow> bool" where
  "nameLoop nm [] = False"
| "nameLoop nm (c # cs) =
     (if GetName c = nm \<and> \<not> IsUsed c then True else nameLoop nm cs)"

definition ValidateName ::
    "'s Storer \<Rightarrow> string \<Rightarrow> string \<Rightarrow> 's \<Rightarrow> (bool \<times> error option) \<times> 's" where
  "ValidateName S userid nm st =
     (case GetBackupCodes S userid st of
        ((codes, Some err), st1) \<Rightarrow> ((False, Some err), st1)
      | ((codes, None), st1) \<Rightarrow> ((nameLoop nm codes, None), st1))"

subsection \<open>ValidateCode\<close>

text \<open>
  A call either returns its pair or panics. \<open>phrase[:recoveryNameLen]\<close> panics when the
  slice that \<open>strings.Split\<close> returns (its capacity is its length) has fewer than
  \<open>recoveryNameLen\<close> fields. The error of \<open>mnemonics.FromString\<close> is assigned to
  \<open>err\<close> and overwritten by the next call before it is read; \<open>key\<close> is whatever the
  codec returned with it.
\<close>

datatype 'a outcome = Panic | Return 'a

definition ValidateCode ::
    "'r Lib \<Rightarrow> 's Storer \<Rightarrow> string \<Rightarrow> string \<Rightarrow> 's \<Rightarrow> (bool \<times> error option) outcome \<times> 's" where
  "ValidateCode lib S userid codeString st =
     (let phrase = Split codeString in
      if length phrase < recoveryNameLen then (Panic, st)
      else
        let nm = Join (take recoveryNameLen phrase);
            mnemonicKey = Join (drop recoveryNameLen phrase);
            key = fst (FromString lib mnemonicKey)
        in case GetBackupCodeByName S userid nm st of
             ((c, Some err), st1) \<Rightarrow> (Return (False, Some err), st1)
           | ((None, None), st1) \<Rightarrow> (Return (False, None), st1)
           | ((Some code, None), st1) \<Rightarrow>
               if GetName code \<noteq> nm \<or> IsUsed code then (Return (False, None), st1)
               else (case CompareHashAndPassword lib (GetHashedSecret code) key of
                       Some err \<Rightarrow> (Return (False, None), st1)
                     | None \<Rightarrow>
                         (case UpdateBackupCode S (SetUsed code) st1 of
                            (Some err, st2) \<Rightarrow> (Return (False, Some err), st2)
                          | (None, st2) \<Rightarrow> (Return (True, None), st2))))"

subsection \<open>Sequences of calls\<close>

datatype 'r call =
    CallCreateCodes string 'r
  | CallIsSupported string
  | CallValidateName string string
  | CallValidateCode string string

fun exec :: "'r Lib \<Rightarrow> 's Storer \<Rightarrow> 's \<Rightarrow> 'r call \<Rightarrow> 's" where
  "exec lib S st (CallCreateCodes u r) = snd (snd (CreateCodes lib S u r st))"
| "exec lib S st (CallIsSupported u) = snd (IsSupported S u st)"
| "exec lib S st (CallValidateName u nm) = snd (ValidateName S u nm st)"
| "exec lib S st (CallValidateCode u s) = snd (ValidateCode lib S u s st)"

definition execAll :: "'r Lib \<Rightarrow> 's Storer \<Rightarrow> 'r call list \<Rightarrow> 's \<Rightarrow> 's" where
  "execAll lib S calls st = foldl (exec lib S) st calls"

subsection \<open>A Storer after the spec\<close>

text \<open>
  Modelled from the spec: an implementation of the \<open>Storer\<close> interface, none of which is
  in backup.go. The store is the list of the code records in the order they were added,
  and the key of a record is its position. After the spec's contract:
  \<open>AddBackupCode\<close> creates a new unused record and fails on a name that an unused record
  of the user has already; \<open>GetBackupCodes\<close> returns the user's records, used or not;
  \<open>GetBackupCodeByName\<close> returns a record of the user with exactly this name, or nothing
  when there is none; \<open>UpdateBackupCode\<close> saves the record it is handed only if the stored
  record is unused, and fails otherwise. A used record and a later unused one can share a
  name, and the contract does not say which of them the lookup returns: the choice is the
  parameter \<open>pick\<close>, any function from the matching records to a position among them.
\<close>

type_synonym store = "BackupCode list"

definition specAdd :: "string \<Rightarrow> string \<Rightarrow> string \<Rightarrow> store \<Rightarrow> error option \<times> store" where
  "specAdd u nm h st =
     (if \<exists>b \<in> set st. userID b = u \<and> name b = nm \<and> \<not> used b
      then (Some (StorageError ''duplicate name''), st)
      else (None, st @ [\<lparr>userID = u, name = nm, hashedSecret = h, used = False\<rparr>]))"

definition specGetAll :: "string \<Rightarrow> store \<Rightarrow> (Code list \<times> error option) \<times> store" where
  "specGetAll u st = ((filter (\<lambda>c. userID (snd c) = u) (enumerate 0 st), None), st)"

definition matching :: "string \<Rightarrow> string \<Rightarrow> store \<Rightarrow> Code list" where
  "matching u nm st = filter (\<lambda>c. userID (snd c) = u \<and> name (snd c) = nm) (enumerate 0 st)"

definition specGetByName ::
    "(Code list \<Rightarrow> nat) \<Rightarrow> string \<Rightarrow> string \<Rightarrow> store \<Rightarrow> (Code option \<times> error option) \<times> store" where
  "specGetByName pick u nm st =
     (let cs = matching u nm st
      in ((if cs = [] then None else Some (cs ! (pick cs mod length cs)), None), st))"

definition specUpdate :: "Code \<Rightarrow> store \<Rightarrow> error option \<times> store" where
  "specUpdate c st =
     (if fst c < length st \<and> \<not> used (st ! fst c)
      then (None, st[fst c := snd c])
      else (Some (StorageError ''code already used''), st))"

definition specStorer :: "(Code list \<Rightarrow> nat) \<Rightarrow> store Storer" where
  "specStorer pick =
     \<lparr>AddBackupCode = specAdd, GetBackupCodes = specGetAll,
      GetBackupCodeByName = specGetByName pick, UpdateBackupCode = specUpdate\<rparr>"

text \<open>The lookup that returns the oldest of the matching records.\<close>

definition oldest :: "Code list \<Rightarrow> nat" where
  "oldest cs = 0"

text \<open>A Storer that cannot be reached: every call fails and the store stays as it is.\<close>

definition downStorer :: "store Storer" where
  "downStorer =
     \<lparr>AddBackupCode = (\<lambda>u nm h st. (Some (StorageError ''unreachable''), st)),
      GetBackupCodes = (\<lambda>u st. (([], Some (StorageError ''unreachable'')), st)),
      GetBackupCodeByName = (\<lambda>u nm st. ((None, Some (StorageError ''unreachable'')), st)),
      UpdateBackupCode = (\<lambda>c st. (Some (StorageError ''unreachable''), st))\<rparr>"

text \<open>
  The spec's Storer with a second request that consumes the code between the lookup of
  this request and its update: the lookup returns the record as it was and leaves it
  used in the store.
\<close>

definition racedStorer :: "(Code list \<Rightarrow> nat) \<Rightarrow> store Storer" where
  "racedStorer pick =
     (specStorer pick)\<lparr>GetBackupCodeByName :=
       (\<lambda>u nm st. case specGetByName pick u nm st of
                     ((Some c, None), st1) \<Rightarrow> ((Some c, None), snd (specUpdate (SetUsed c) st1))
                   | other \<Rightarrow> other)\<rparr>"

subsection \<open>A random source over a finite byte stream\<close>

text \<open>
  A source that fills the buffer from the front of a byte stream and reports the number
  of bytes it copied, with an error exactly when the stream ends before the buffer is
  full: the contract of \<open>io.ReadFull\<close>, which \<open>rand.Read\<close> wraps.
\<close>

definition streamRead :: "nat \<Rightarrow> byte list \<Rightarrow> (nat \<times> byte list \<times> error option) \<times> byte list" where
  "streamRead sz bs =
     (if sz \<le> length bs then ((sz, take sz bs, None), drop sz bs)
      else ((length bs, bs @ replicate (sz - length bs) 0,
             Some (RandError ''unexpected EOF'')), []))"

definition fullRead :: "'r Lib \<Rightarrow> bool" where
  "fullRead lib \<longleftrightarrow>
     (\<forall>sz r. case rand_Read lib sz r of ((n, buf, e), r') \<Rightarrow> e = None \<longrightarrow> n = sz)"

subsection \<open>A small codec and hasher\<close>

text \<open>
  Stand-ins for the codec and the hasher where a concrete run needs them: a dictionary of
  four words, one word for a byte, and a digest that is the phrase behind a dollar sign.
\<close>

definition toyWord :: "byte \<Rightarrow> string" where
  "toyWord b = [''able'', ''baker'', ''charlie'', ''dog''] ! (unat b mod 4)"

definition toyByte :: "string \<Rightarrow> byte option" where
  "toyByte w =
     (if w = ''able'' then Some 0 else if w = ''baker'' then Some 1
      else if w = ''charlie'' then Some 2 else if w = ''dog'' then Some 3 else None)"

fun toyBytes :: "string list \<Rightarrow> byte list option" where
  "toyBytes [] = Some []"
| "toyBytes (w # ws) =
     (case toyByte w of None \<Rightarrow> None
      | Some b \<Rightarrow> (case toyBytes ws of None \<Rightarrow> None | Some bs \<Rightarrow> Some (b # bs)))"

definition toyDigest :: "byte list \<Rightarrow> string" where
  "toyDigest pw = CHR ''$'' # Join (map toyWord pw)"

definition toyLib ::
    "(nat \<Rightarrow> byte list \<Rightarrow> (nat \<times> byte list \<times> error option) \<times> byte list) \<Rightarrow> (byte list) Lib" where
  "toyLib rd =
     \<lparr>rand_Read = rd,
      ToPhrase = (\<lambda>bs. (map toyWord bs, None)),
      FromString = (\<lambda>s. case toyBytes (Split s) of
                           None \<Rightarrow> ([], Some (DecodingError ''word not found''))
                         | Some bs \<Rightarrow> (bs, None)),
      GenerateFromPassword = (\<lambda>pw cost r. ((toyDigest pw, None), r)),
      CompareHashAndPassword =
        (\<lambda>h pw. if h = toyDigest pw then None else Some MismatchError)\<rparr>"

subsection \<open>A store for concrete runs\<close>

text \<open>One unused code of alice: name \<open>dog dog dog\<close>, secret \<open>able baker\<close>.\<close>

definition aliceStore :: store where
  "aliceStore =
     [\<lparr>userID = ''alice'', name = ''dog dog dog'', hashedSecret = ''$able baker'',
       used = False\<rparr>]"

subsection \<open>ValidateCode in two steps, and invocations that interleave\<close>

text \<open>
  \<open>ValidateCode\<close> touches the store twice, in \<open>GetBackupCodeByName\<close> and in
  \<open>UpdateBackupCode\<close>; everything else is local to the invocation. An invocation is
  \<open>Ready\<close> before the lookup, \<open>Fetched\<close> with the code it has marked used by
  \<open>SetUsed\<close> between the two calls, and \<open>Done\<close> with its result. \<open>lookupStep\<close> is
  the body up to the update and \<open>updateStep\<close> the rest, each with one Storer call, which
  is taken to be atomic. A schedule names the invocation that takes the next step.
\<close>

datatype thread = Ready | Fetched Code | Done "(bool \<times> error option) outcome"

definition lookupStep :: "'r Lib \<Rightarrow> 's Storer \<Rightarrow> string \<Rightarrow> string \<Rightarrow> 's \<Rightarrow> thread \<times> 's" where
  "lookupStep lib S userid codeString st =
     (let phrase = Split codeString in
      if length phrase < recoveryNameLen then (Done Panic, st)
      else
        let nm = Join (take recoveryNameLen phrase);
            mnemonicKey = Join (drop recoveryNameLen phrase);
            key = fst (FromString lib mnemonicKey)
        in case GetBackupCodeByName S userid nm st of
             ((c, Some err), st1) \<Rightarrow> (Done (Return (False, Some err)), st1)
           | ((None, None), st1) \<Rightarrow> (Done (Return (False, None)), st1)
           | ((Some code, None), st1) \<Rightarrow>
               if GetName code \<noteq> nm \<or> IsUsed code then (Done (Return (False, None)), st1)
               else (case CompareHashAndPassword lib (GetHashedSecret code) key of
                       Some err \<Rightarrow> (Done (Return (False, None)), st1)
                     | None \<Rightarrow> (Fetched (SetUsed code), st1)))"

definition updateStep :: "'s Storer \<Rightarrow> Code \<Rightarrow> 's \<Rightarrow> thread \<times> 's" where
  "updateStep S code st =
     (case UpdateBackupCode S code st of
        (Some err, st2) \<Rightarrow> (Done (Return (False, Some err)), st2)
      | (None, st2) \<Rightarrow> (Done (Return (True, None)), st2))"

fun threadStep :: "'r Lib \<Rightarrow> 's Storer \<Rightarrow> string \<Rightarrow> string \<Rightarrow> thread \<Rightarrow> 's \<Rightarrow> thread \<times> 's" where
  "threadStep lib S u s Ready st = lookupStep lib S u s st"
| "threadStep lib S u s (Fetched code) st = updateStep S code st"
| "threadStep lib S u s (Done r) st = (Done r, st)"

definition schedStep ::
    "'r Lib \<Rightarrow> 's Storer \<Rightarrow> string \<Rightarrow> string \<Rightarrow> thread list \<times> 's \<Rightarrow> nat \<Rightarrow> thread list \<times> 's" where
  "schedStep lib S u s cfg i =
     (if i < length (fst cfg)
      then (case threadStep lib S u s (fst cfg ! i) (snd cfg) of
              (t, st) \<Rightarrow> ((fst cfg)[i := t], st))
      else cfg)"

definition runSched ::
    "'r Lib \<Rightarrow> 's Storer \<Rightarrow> string \<Rightarrow> string \<Rightarrow> nat list \<Rightarrow> thread list \<times> 's \<Rightarrow> thread list \<times> 's" where
  "runSched lib S u s sched cfg = foldl (schedStep lib S u s) cfg sched"

fun progress :: "thread \<Rightarrow> nat" where
  "progress Ready = 0"
| "progress (Fetched c) = 1"
| "progress (Done r) = 2"

text \<open>
  A Storer like the one of the spec whose update is unconditional: it saves the record it
  is handed whatever the stored flag is.
\<close>

definition plainUpdate :: "Code \<Rightarrow> store \<Rightarrow> error option \<times> store" where
  "plainUpdate c st =
     (if fst c < length st then (None, st[fst c := snd c])
      else (Some (StorageError ''no such code''), st))"

definition plainStorer :: "(Code list \<Rightarrow> nat) \<Rightarrow> store Storer" where
  "plainStorer pick = (specStorer pick)\<lparr>UpdateBackupCode := plainUpdate\<rparr>"

subsection \<open>Predicates of the results\<close>

text \<open>The record that \<open>AddBackupCode\<close> of the spec's Storer creates for a key.\<close>

definition recordOf :: "string \<Rightarrow> BackupKey \<Rightarrow> BackupCode" where
  "recordOf u k = \<lparr>userID = u, name = Name k, hashedSecret = Hash k, used = False\<rparr>"

text \<open>
  The order in which the spec's store evolves under the four operations: records are only
  added at the end, and a record keeps its user, name and hash, and its used flag once it
  is set.
\<close>

definition grows :: "store \<Rightarrow> store \<Rightarrow> bool" where
  "grows st st' \<longleftrightarrow>
     length st \<le> length st'
     \<and> (\<forall>i < length st.
           userID (st' ! i) = userID (st ! i) \<and> name (st' ! i) = name (st ! i)
           \<and> hashedSecret (st' ! i) = hashedSecret (st ! i)
           \<and> (used (st ! i) \<longrightarrow> used (st' ! i)))"

text \<open>No record of the user with this name is unused.\<close>

definition spent :: "string \<Rightarrow> string \<Rightarrow> store \<Rightarrow> bool" where
  "spent u nm st \<longleftrightarrow> (\<forall>j < length st. userID (st ! j) = u \<and> name (st ! j) = nm \<longrightarrow> used (st ! j))"

text \<open>The calls that can add records.\<close>

fun issues :: "'r call \<Rightarrow> bool" where
  "issues (CallCreateCodes u r) = True"
| "issues (CallIsSupported u) = False"
| "issues (CallValidateName u nm) = False"
| "issues (CallValidateCode u s) = False"

subsection \<open>Keys and stores for concrete runs\<close>

text \<open>
  A key with the fields that \<open>CreateCodes\<close> gives a key (backup.go:103) for the name bytes
  \<open>3, 3, 3\<close> and sixteen secret bytes: the name phrase, the secret phrase, the hash of the
  secret bytes.
\<close>

definition secretBytes :: "byte list" where
  "secretBytes = [0, 1, 2, 3, 0, 1, 2, 3, 0, 1, 2, 3, 0, 1, 2, 3]"

definition dogKey :: BackupKey where
  "dogKey = \<lparr>Name = Join (map toyWord [3, 3, 3]), Code = Join (map toyWord secretBytes),
             Hash = toyDigest secretBytes\<rparr>"

text \<open>
  A store with one earlier code of alice, whose name is the first three words of the secret
  phrase of \<open>dogKey\<close> and whose secret is the rest of it.
\<close>

definition shadowStore :: store where
  "shadowStore =
     [\<lparr>userID = ''alice'', name = ''able baker charlie'',
       hashedSecret = toyDigest (drop 3 secretBytes), used = False\<rparr>]"

text \<open>A store with one code of alice whose hash is that of the empty secret.\<close>

definition blankHashStore :: store where
  "blankHashStore =
     [\<lparr>userID = ''alice'', name = ''dog dog dog'', hashedSecret = ''$'', used = False\<rparr>]"

section \<open>Results\<close>

subsection \<open>cryptoBytes: results\<close>

lemma recoveryNameLen_neq_KeyLen: "recoveryNameLen \<noteq> recoveryKeyLen"
  by (simp add: recoveryNameLen_def recoveryKeyLen_def)

text \<open>
  Claim C4. For every size other than \<open>recoveryKeyLen\<close> (16), a read that succeeds and
  reports the whole buffer (\<open>n = size\<close>) makes \<open>cryptoBytes\<close> return the entropy error,
  and a read that fails returns its own error: the call never returns without an error.
  The name draw \<open>cryptoBytes recoveryNameLen\<close> of \<open>CreateCodes\<close> is such a call.
\<close>

theorem cryptoBytes_wrong_size_errors:
  assumes "rand_Read lib sz r = ((n, buf, e), r')"
    and "e = None \<longrightarrow> n = sz"
    and "sz \<noteq> recoveryKeyLen"
  shows "cryptoBytes lib sz r =
           ((buf, Some (case e of None \<Rightarrow> EntropyError | Some x \<Rightarrow> x)), r')
         \<and> snd (fst (cryptoBytes lib sz r)) \<noteq> None
         \<and> recoveryNameLen \<noteq> recoveryKeyLen"
proof -
  have eq: "cryptoBytes lib sz r =
              ((buf, Some (case e of None \<Rightarrow> EntropyError | Some x \<Rightarrow> x)), r')"
    using assms by (cases e) (simp_all add: cryptoBytes_def)
  have "snd (fst (cryptoBytes lib sz r)) \<noteq> None"
    by (simp add: eq)
  with eq recoveryNameLen_neq_KeyLen show ?thesis by blast
qed

theorem cryptoBytes_wrong_size_errors_witness:
  "rand_Read (toyLib streamRead) 3 [1, 2, 3, 4] = ((3, [1, 2, 3], None), [4])
   \<and> (3::nat) \<noteq> recoveryKeyLen
   \<and> cryptoBytes (toyLib streamRead) 3 [1, 2, 3, 4] = (([1, 2, 3], Some EntropyError), [4])"
proof -
  have rd: "rand_Read (toyLib streamRead) 3 [1, 2, 3, 4] = ((3, [1, 2, 3], None), [4])"
    by (simp add: toyLib_def streamRead_def)
  have ne: "(3::nat) \<noteq> recoveryKeyLen"
    by (simp add: recoveryKeyLen_def)
  from cryptoBytes_wrong_size_errors [OF rd _ ne] rd ne show ?thesis
    by simp
qed

subsection \<open>CreateCodes: results\<close>

text \<open>
  With a random source that reports the length of the buffer whenever it succeeds, the
  first iteration of the first loop ends in an error, at the name draw if not before.
\<close>

lemma genKeys_full_read_fails:
  assumes "fullRead lib"
  shows "\<exists>x r1. genKeys lib (i # is) keys r = ((keys, Some x), r1)"
proof (cases "cryptoBytes lib recoveryKeyLen r")
  case (Pair ce r1)
  obtain code e where ce: "ce = (code, e)" by (cases ce)
  show ?thesis
  proof (cases e)
    case (Some x)
    with Pair ce show ?thesis by simp
  next
    case None
    obtain n buf e2 r2 where rd: "rand_Read lib recoveryNameLen r1 = ((n, buf, e2), r2)"
      by (metis prod.exhaust)
    from assms rd have "e2 = None \<longrightarrow> n = recoveryNameLen"
      unfolding fullRead_def by (metis (mono_tags, lifting) case_prod_conv)
    with rd have "snd (fst (cryptoBytes lib recoveryNameLen r1)) \<noteq> None"
      by (cases e2) (simp_all add: cryptoBytes_def recoveryNameLen_neq_KeyLen)
    then obtain nm x r2' where "cryptoBytes lib recoveryNameLen r1 = ((nm, Some x), r2')"
      by (metis prod.collapse option.exhaust)
    with Pair ce None show ?thesis by simp
  qed
qed

lemma fullRead_streamRead: "fullRead (toyLib streamRead)"
  by (simp add: fullRead_def toyLib_def streamRead_def)

text \<open>
  Claim C2. The claim describes what \<open>CreateCodes\<close> returns on success. With a random
  source that reports the length of the buffer whenever it succeeds, as \<open>rand.Read\<close>
  does, \<open>CreateCodes\<close> has no success: for every user, Storer and store it returns the
  five zero keys with an error and leaves the store as it was.
\<close>

theorem CreateCodes_full_read_fails:
  assumes "fullRead lib"
  shows "fst (fst (CreateCodes lib S u r st)) = replicate numRecoveryKeys zeroKey
    \<and> snd (fst (CreateCodes lib S u r st)) \<noteq> None
    \<and> snd (snd (CreateCodes lib S u r st)) = st"
proof -
  have idx: "[0..<numRecoveryKeys] = 0 # [1..<numRecoveryKeys]"
    by (simp add: numRecoveryKeys_def upt_rec)
  from genKeys_full_read_fails [OF assms, of 0 "[1..<numRecoveryKeys]"
         "replicate numRecoveryKeys zeroKey" r]
  obtain x r1 where
    "genKeys lib [0..<numRecoveryKeys] (replicate numRecoveryKeys zeroKey) r
       = ((replicate numRecoveryKeys zeroKey, Some x), r1)"
    unfolding idx by blast
  then show ?thesis by (simp add: CreateCodes_def)
qed

theorem CreateCodes_full_read_fails_witness:
  "fullRead (toyLib streamRead)
   \<and> CreateCodes (toyLib streamRead) (specStorer oldest) ''alice'' (replicate 200 7) []
       = ((replicate 5 zeroKey, Some EntropyError), replicate 181 7, [])"
proof -
  have run: "CreateCodes (toyLib streamRead) (specStorer oldest) ''alice'' (replicate 200 7) []
       = ((replicate 5 zeroKey, Some EntropyError), replicate 181 7, [])"
    by code_simp
  from CreateCodes_full_read_fails [OF fullRead_streamRead, of "specStorer oldest" "''alice''"
         "replicate 200 7" "[]"] fullRead_streamRead run
  show ?thesis by simp
qed

subsection \<open>IsSupported: results\<close>

lemma availableLoop_iff: "availableLoop cs a \<longleftrightarrow> a \<or> (\<exists>c \<in> set cs. \<not> IsUsed c)"
  by (induction cs arbitrary: a) auto

text \<open>
  Claim C7. \<open>IsSupported\<close> returns true if and only if \<open>GetBackupCodes\<close> returns without
  an error and one of the codes it returns is unused; when \<open>GetBackupCodes\<close> returns an
  error, \<open>IsSupported\<close> returns false and no error reaches the caller (its result is the
  boolean alone).
\<close>

theorem IsSupported_iff_unused_fetched:
  "(fst (IsSupported S u st) \<longleftrightarrow>
      (\<exists>codes. fst (GetBackupCodes S u st) = (codes, None) \<and> (\<exists>c \<in> set codes. \<not> IsUsed c)))
   \<and> (snd (fst (GetBackupCodes S u st)) \<noteq> None \<longrightarrow> \<not> fst (IsSupported S u st))"
  by (auto simp: IsSupported_def availableLoop_iff split: prod.splits option.splits)

theorem IsSupported_iff_unused_fetched_witness:
  "snd (fst (GetBackupCodes downStorer ''alice'' aliceStore)) \<noteq> None
   \<and> \<not> fst (IsSupported downStorer ''alice'' aliceStore)
   \<and> fst (IsSupported (specStorer oldest) ''alice'' aliceStore)"
proof -
  have down: "snd (fst (GetBackupCodes downStorer ''alice'' aliceStore)) \<noteq> None"
    by (simp add: downStorer_def)
  have up: "fst (GetBackupCodes (specStorer oldest) ''alice'' aliceStore) = ([(0, hd aliceStore)], None)
            \<and> \<not> IsUsed (0, hd aliceStore)"
    by (simp add: specStorer_def specGetAll_def aliceStore_def enumerate_eq_zip IsUsed_def)
  from IsSupported_iff_unused_fetched [of downStorer "''alice''" aliceStore]
       IsSupported_iff_unused_fetched [of "specStorer oldest" "''alice''" aliceStore] down up
  show ?thesis by auto
qed

subsection \<open>ValidateName: results\<close>

lemma nameLoop_iff: "nameLoop nm cs \<longleftrightarrow> (\<exists>c \<in> set cs. GetName c = nm \<and> \<not> IsUsed c)"
  by (induction cs) auto

text \<open>
  Claim C8. When \<open>GetBackupCodes\<close> returns the codes of the user without an error,
  \<open>ValidateName\<close> returns \<open>(true, nil)\<close> if and only if one of them has exactly this name
  and is unused, and \<open>(false, nil)\<close> otherwise; when \<open>GetBackupCodes\<close> returns an error,
  \<open>ValidateName\<close> returns false with that error.
\<close>

theorem ValidateName_iff_unused_named:
  "(fst (GetBackupCodes S u st) = (codes, None) \<longrightarrow>
      (fst (ValidateName S u nm st) = (True, None) \<longleftrightarrow>
         (\<exists>c \<in> set codes. GetName c = nm \<and> \<not> IsUsed c))
      \<and> (fst (ValidateName S u nm st) = (False, None) \<longleftrightarrow>
         \<not> (\<exists>c \<in> set codes. GetName c = nm \<and> \<not> IsUsed c)))
   \<and> (fst (GetBackupCodes S u st) = (codes, Some e) \<longrightarrow>
        fst (ValidateName S u nm st) = (False, Some e))"
  by (auto simp: ValidateName_def nameLoop_iff split: prod.splits option.splits)

theorem ValidateName_iff_unused_named_witness:
  "fst (GetBackupCodes (specStorer oldest) ''alice'' aliceStore) = ([(0, hd aliceStore)], None)
   \<and> fst (ValidateName (specStorer oldest) ''alice'' ''dog dog dog'' aliceStore) = (True, None)
   \<and> fst (GetBackupCodes downStorer ''alice'' aliceStore)
       = ([], Some (StorageError ''unreachable''))
   \<and> fst (ValidateName downStorer ''alice'' ''dog dog dog'' aliceStore)
       = (False, Some (StorageError ''unreachable''))"
proof -
  have up: "fst (GetBackupCodes (specStorer oldest) ''alice'' aliceStore) = ([(0, hd aliceStore)], None)"
    by (simp add: specStorer_def specGetAll_def aliceStore_def enumerate_eq_zip)
  have c: "GetName (0, hd aliceStore) = ''dog dog dog'' \<and> \<not> IsUsed (0, hd aliceStore)"
    by (simp add: aliceStore_def GetName_def IsUsed_def)
  have down: "fst (GetBackupCodes downStorer ''alice'' aliceStore)
                = ([], Some (StorageError ''unreachable''))"
    by (simp add: downStorer_def)
  from ValidateName_iff_unused_named
         [of "specStorer oldest" "''alice''" aliceStore "[(0, hd aliceStore)]" "''dog dog dog''"]
       ValidateName_iff_unused_named
         [of downStorer "''alice''" aliceStore "[]" _ "StorageError ''unreachable''"]
       up c down
  show ?thesis by auto
qed

text \<open>
  Claim C9. \<open>ValidateName\<close> leaves the store as its one call of \<open>GetBackupCodes\<close>
  leaves it, whatever it returns: with a Storer whose fetch changes nothing, the store after
  the call is the store before it, record for record.
\<close>

theorem ValidateName_store_unchanged:
  "snd (ValidateName S u nm st) = snd (GetBackupCodes S u st)
   \<and> (snd (GetBackupCodes S u st) = st \<longrightarrow> snd (ValidateName S u nm st) = st)"
  by (auto simp: ValidateName_def split: prod.splits option.splits)

theorem ValidateName_store_unchanged_witness:
  "snd (GetBackupCodes (specStorer oldest) ''alice'' aliceStore) = aliceStore
   \<and> ValidateName (specStorer oldest) ''alice'' ''dog dog dog'' aliceStore = ((True, None), aliceStore)
   \<and> ValidateName (specStorer oldest) ''alice'' ''able'' aliceStore = ((False, None), aliceStore)"
proof -
  have rd: "snd (GetBackupCodes (specStorer oldest) ''alice'' aliceStore) = aliceStore"
    by (simp add: specStorer_def specGetAll_def)
  have res: "fst (ValidateName (specStorer oldest) ''alice'' ''dog dog dog'' aliceStore) = (True, None)
             \<and> fst (ValidateName (specStorer oldest) ''alice'' ''able'' aliceStore) = (False, None)"
    by (simp add: ValidateName_def specStorer_def specGetAll_def aliceStore_def enumerate_eq_zip
        GetName_def IsUsed_def)
  from ValidateName_store_unchanged [of "specStorer oldest" "''alice''" "''dog dog dog''" aliceStore]
       ValidateName_store_unchanged [of "specStorer oldest" "''alice''" "''able''" aliceStore] rd res
  show ?thesis by (simp add: prod_eq_iff)
qed

subsection \<open>ValidateCode: results\<close>

text \<open>
  Claim C3, at the input \<open>"a b"\<close>: \<open>strings.Split\<close> gives two fields and
  \<open>phrase[:recoveryNameLen]\<close> panics, for every user, library and Storer.
\<close>

theorem ValidateCode_short_input_panics:
  "fst (ValidateCode lib S u ''a b'' st) = Panic"
  by (simp add: ValidateCode_def recoveryNameLen_def)

theorem ValidateCode_short_input_panics_witness:
  "Split ''a b'' = [''a'', ''b'']
   \<and> fst (ValidateCode (toyLib streamRead) (specStorer oldest) ''alice'' ''a b'' aliceStore) = Panic"
  using ValidateCode_short_input_panics [of "toyLib streamRead" "specStorer oldest" "''alice''" aliceStore]
  by simp

text \<open>\<open>ValidateCode\<close> after the slice expressions, by what the lookup returned.\<close>

lemma ValidateCode_unfold:
  assumes "recoveryNameLen \<le> length (Split s)"
    and "GetBackupCodeByName S u (Join (take recoveryNameLen (Split s))) st = ((c, e), st1)"
  shows "ValidateCode lib S u s st =
     (case e of
        Some err \<Rightarrow> (Return (False, Some err), st1)
      | None \<Rightarrow>
         (case c of
            None \<Rightarrow> (Return (False, None), st1)
          | Some code \<Rightarrow>
              if GetName code \<noteq> Join (take recoveryNameLen (Split s)) \<or> IsUsed code
              then (Return (False, None), st1)
              else (case CompareHashAndPassword lib (GetHashedSecret code)
                           (fst (FromString lib (Join (drop recoveryNameLen (Split s))))) of
                      Some err \<Rightarrow> (Return (False, None), st1)
                    | None \<Rightarrow>
                        (case UpdateBackupCode S (SetUsed code) st1 of
                           (Some err, st2) \<Rightarrow> (Return (False, Some err), st2)
                         | (None, st2) \<Rightarrow> (Return (True, None), st2)))))"
  using assms
  by (simp add: ValidateCode_def Let_def split: option.splits prod.splits)

text \<open>The slice expression is the only place where \<open>ValidateCode\<close> panics.\<close>

lemma ValidateCode_panics_iff:
  "fst (ValidateCode lib S u s st) = Panic \<longleftrightarrow> length (Split s) < recoveryNameLen"
proof (cases "recoveryNameLen \<le> length (Split s)")
  case False
  then show ?thesis by (simp add: ValidateCode_def)
next
  case True
  obtain c e st1 where lk:
    "GetBackupCodeByName S u (Join (take recoveryNameLen (Split s))) st = ((c, e), st1)"
    by (metis prod.exhaust)
  show ?thesis
    unfolding ValidateCode_unfold [OF True lk] using True
    by (auto split: option.splits prod.splits)
qed

text \<open>
  Claim C5. The claim asks for \<open>(false, nil)\<close> whenever the secret phrase fails to decode.
  \<open>ValidateCode\<close> never reads the error of the decoding: it goes on with the bytes the
  codec returned with the error, and when the code it looks up is unused, has the name and
  has a hash that verifies against those bytes, the call returns true and the code is
  consumed.
\<close>

theorem ValidateCode_accepts_undecodable:
  assumes "recoveryNameLen \<le> length (Split s)"
    and "FromString lib (Join (drop recoveryNameLen (Split s))) = (key, Some d)"
    and "GetBackupCodeByName S u (Join (take recoveryNameLen (Split s))) st
           = ((Some code, None), st1)"
    and "GetName code = Join (take recoveryNameLen (Split s))"
    and "\<not> IsUsed code"
    and "CompareHashAndPassword lib (GetHashedSecret code) key = None"
    and "UpdateBackupCode S (SetUsed code) st1 = (None, st2)"
  shows "ValidateCode lib S u s st = (Return (True, None), st2)"
  unfolding ValidateCode_unfold [OF assms(1) assms(3)] using assms by simp

theorem ValidateCode_accepts_undecodable_witness:
  "FromString (toyLib streamRead) (Join (drop recoveryNameLen (Split ''dog dog dog zzzz'')))
     = ([], Some (DecodingError ''word not found''))
   \<and> ValidateCode (toyLib streamRead) (specStorer oldest) ''alice'' ''dog dog dog zzzz''
        blankHashStore
     = (Return (True, None), [(hd blankHashStore)\<lparr>used := True\<rparr>])
   \<and> ValidateCode (toyLib streamRead) downStorer ''alice'' ''dog dog dog zzzz'' blankHashStore
     = (Return (False, Some (StorageError ''unreachable'')), blankHashStore)"
proof -
  have len: "recoveryNameLen \<le> length (Split ''dog dog dog zzzz'')"
    by (simp add: recoveryNameLen_def)
  have dec: "FromString (toyLib streamRead)
               (Join (drop recoveryNameLen (Split ''dog dog dog zzzz'')))
             = ([], Some (DecodingError ''word not found''))"
    by (simp add: recoveryNameLen_def toyLib_def toyByte_def)
  have lk: "GetBackupCodeByName (specStorer oldest) ''alice''
              (Join (take recoveryNameLen (Split ''dog dog dog zzzz''))) blankHashStore
            = ((Some (0, hd blankHashStore), None), blankHashStore)"
    by (simp add: recoveryNameLen_def specStorer_def specGetByName_def matching_def oldest_def
        blankHashStore_def enumerate_eq_zip)
  have nm: "GetName (0, hd blankHashStore)
              = Join (take recoveryNameLen (Split ''dog dog dog zzzz''))"
    by (simp add: recoveryNameLen_def GetName_def blankHashStore_def)
  have nu: "\<not> IsUsed (0, hd blankHashStore)"
    by (simp add: IsUsed_def blankHashStore_def)
  have cmp: "CompareHashAndPassword (toyLib streamRead)
               (GetHashedSecret (0, hd blankHashStore)) [] = None"
    by (simp add: toyLib_def GetHashedSecret_def blankHashStore_def toyDigest_def)
  have upd: "UpdateBackupCode (specStorer oldest) (SetUsed (0, hd blankHashStore)) blankHashStore
               = (None, [(hd blankHashStore)\<lparr>used := True\<rparr>])"
    by (simp add: specStorer_def specUpdate_def SetUsed_def blankHashStore_def)
  have down: "ValidateCode (toyLib streamRead) downStorer ''alice'' ''dog dog dog zzzz''
                blankHashStore
              = (Return (False, Some (StorageError ''unreachable'')), blankHashStore)"
    by (simp add: ValidateCode_def recoveryNameLen_def downStorer_def)
  from ValidateCode_accepts_undecodable [OF len dec lk nm nu cmp upd] dec down
  show ?thesis by simp
qed

text \<open>
  Claim C6, as amended. When the name, the unused flag and the hashed secret all match and
  \<open>UpdateBackupCode\<close> fails, \<open>ValidateCode\<close> returns false together with the
  Storer's error; and whenever \<open>ValidateCode\<close> returns true, the error is nil, the code
  it looked up was unused, and \<open>UpdateBackupCode\<close> on that code marked used returned
  without error, leaving the store the call ends with.
\<close>

theorem ValidateCode_update_outcome:
  "(\<forall>code st1 err st2.
      recoveryNameLen \<le> length (Split s)
      \<and> GetBackupCodeByName S u (Join (take recoveryNameLen (Split s))) st = ((Some code, None), st1)
      \<and> GetName code = Join (take recoveryNameLen (Split s)) \<and> \<not> IsUsed code
      \<and> CompareHashAndPassword lib (GetHashedSecret code)
           (fst (FromString lib (Join (drop recoveryNameLen (Split s))))) = None
      \<and> UpdateBackupCode S (SetUsed code) st1 = (Some err, st2)
      \<longrightarrow> ValidateCode lib S u s st = (Return (False, Some err), st2))
   \<and> (\<forall>e. fst (ValidateCode lib S u s st) = Return (True, e) \<longrightarrow>
         e = None
         \<and> (\<exists>code st1.
               GetBackupCodeByName S u (Join (take recoveryNameLen (Split s))) st
                 = ((Some code, None), st1)
               \<and> \<not> IsUsed code \<and> IsUsed (SetUsed code)
               \<and> UpdateBackupCode S (SetUsed code) st1
                   = (None, snd (ValidateCode lib S u s st))))"
proof (cases "recoveryNameLen \<le> length (Split s)")
  case False
  then show ?thesis by (simp add: ValidateCode_def)
next
  case True
  obtain c e st1 where lk:
    "GetBackupCodeByName S u (Join (take recoveryNameLen (Split s))) st = ((c, e), st1)"
    by (metis prod.exhaust)
  show ?thesis
    unfolding ValidateCode_unfold [OF True lk] using lk
    by (auto simp: SetUsed_def IsUsed_def split: option.splits prod.splits if_splits)
qed

text \<open>
  The claim as stated fails where a second request consumes the code between the lookup and
  the update: everything matches, the update fails, and the result carries the error.
\<close>

theorem ValidateCode_update_outcome_counterexample:
  "GetBackupCodeByName (racedStorer oldest) ''alice'' ''dog dog dog'' aliceStore
     = ((Some (0, hd aliceStore), None), [(hd aliceStore)\<lparr>used := True\<rparr>])
   \<and> GetName (0, hd aliceStore) = ''dog dog dog'' \<and> \<not> IsUsed (0, hd aliceStore)
   \<and> CompareHashAndPassword (toyLib streamRead) (GetHashedSecret (0, hd aliceStore))
        (fst (FromString (toyLib streamRead) ''able baker'')) = None
   \<and> fst (UpdateBackupCode (racedStorer oldest) (SetUsed (0, hd aliceStore))
            [(hd aliceStore)\<lparr>used := True\<rparr>]) = Some (StorageError ''code already used'')
   \<and> fst (ValidateCode (toyLib streamRead) (racedStorer oldest) ''alice'' ''dog dog dog able baker'' aliceStore)
       = Return (False, Some (StorageError ''code already used''))"
  by (simp add: ValidateCode_def recoveryNameLen_def toyLib_def racedStorer_def specStorer_def
      specGetByName_def matching_def oldest_def specUpdate_def aliceStore_def enumerate_eq_zip toyByte_def toyDigest_def
      toyWord_def GetName_def IsUsed_def SetUsed_def GetHashedSecret_def)


theorem ValidateCode_update_outcome_witness:
  "ValidateCode (toyLib streamRead) (racedStorer oldest) ''alice'' ''dog dog dog able baker'' aliceStore
     = (Return (False, Some (StorageError ''code already used'')),
        [(hd aliceStore)\<lparr>used := True\<rparr>])
   \<and> fst (ValidateCode (toyLib streamRead) (specStorer oldest) ''alice'' ''dog dog dog able baker'' aliceStore)
       = Return (True, None)
   \<and> UpdateBackupCode (specStorer oldest) (SetUsed (0, hd aliceStore)) aliceStore
       = (None, snd (ValidateCode (toyLib streamRead) (specStorer oldest) ''alice''
                       ''dog dog dog able baker'' aliceStore))"
  using ValidateCode_update_outcome
          [of "''dog dog dog able baker''" "racedStorer oldest" "''alice''" aliceStore "toyLib streamRead"]
        ValidateCode_update_outcome
          [of "''dog dog dog able baker''" "specStorer oldest" "''alice''" aliceStore "toyLib streamRead"]
  by (simp add: ValidateCode_def recoveryNameLen_def toyLib_def racedStorer_def specStorer_def
      specGetByName_def matching_def oldest_def specUpdate_def aliceStore_def enumerate_eq_zip toyByte_def toyDigest_def
      toyWord_def GetName_def IsUsed_def SetUsed_def GetHashedSecret_def)

subsection \<open>Consuming a fresh code, over the Storer of the spec\<close>

lemma matching_iff:
  "c \<in> set (matching u nm st) \<longleftrightarrow>
     fst c < length st \<and> snd c = st ! fst c \<and> userID (st ! fst c) = u \<and> name (st ! fst c) = nm"
  by (cases c) (auto simp: matching_def in_set_enumerate_eq)

lemma specGetByName_cases:
  "(matching u nm st = [] \<and> specGetByName pick u nm st = ((None, None), st))
   \<or> (\<exists>c \<in> set (matching u nm st). specGetByName pick u nm st = ((Some c, None), st))"
  by (auto simp: specGetByName_def Let_def)

lemma saveKeys_spec:
  "saveKeys (specStorer pick) u ks st = (None, st') \<Longrightarrow>
     st' = st @ map (recordOf u) ks \<and> distinct (map Name ks)
     \<and> (\<forall>k \<in> set ks. \<forall>b \<in> set st. userID b = u \<and> name b = Name k \<longrightarrow> used b)"
proof (induction ks arbitrary: st)
  case Nil
  then show ?case by simp
next
  case (Cons k ks)
  from Cons.prems have
    fresh: "\<forall>b \<in> set st. userID b = u \<and> name b = Name k \<longrightarrow> used b" and
    rest: "saveKeys (specStorer pick) u ks (st @ [recordOf u k]) = (None, st')"
    by (auto simp: specStorer_def specAdd_def recordOf_def split: if_splits)
  from Cons.IH [OF rest] have
    a: "st' = (st @ [recordOf u k]) @ map (recordOf u) ks" and
    b: "distinct (map Name ks)" and
    c: "\<forall>k' \<in> set ks. \<forall>b \<in> set (st @ [recordOf u k]). userID b = u \<and> name b = Name k' \<longrightarrow> used b"
    by simp_all
  from c have "Name k \<notin> Name ` set ks"
    by (auto simp: recordOf_def)
  with a b c fresh show ?case by auto
qed

lemma fresh_sole:
  assumes "saveKeys (specStorer pick) u keys st0 = (None, st)" and "m < length keys"
  shows "length st0 + m < length st \<and> st ! (length st0 + m) = recordOf u (keys ! m)
    \<and> (\<forall>j < length st. userID (st ! j) = u \<and> name (st ! j) = Name (keys ! m) \<and> \<not> used (st ! j)
          \<longrightarrow> j = length st0 + m)"
proof -
  from saveKeys_spec [OF assms(1)] have
    st: "st = st0 @ map (recordOf u) keys" and
    d: "distinct (map Name keys)" and
    old: "\<forall>k \<in> set keys. \<forall>b \<in> set st0. userID b = u \<and> name b = Name k \<longrightarrow> used b"
    by simp_all
  have a: "length st0 + m < length st" using st assms(2) by simp
  have b: "st ! (length st0 + m) = recordOf u (keys ! m)"
    using st assms(2) by (simp add: nth_append)
  have c: "j = length st0 + m"
    if j: "j < length st" and
       q: "userID (st ! j) = u \<and> name (st ! j) = Name (keys ! m) \<and> \<not> used (st ! j)" for j
  proof (cases "j < length st0")
    case True
    then have "st ! j \<in> set st0" using st by (simp add: nth_append)
    with old assms(2) q show ?thesis by (metis nth_mem)
  next
    case False
    let ?n = "j - length st0"
    from False j st have n: "?n < length keys" by simp
    from False st n have "st ! j = recordOf u (keys ! ?n)"
      by (simp add: nth_append)
    with q have "Name (keys ! ?n) = Name (keys ! m)" by (simp add: recordOf_def)
    with d n assms(2) have "?n = m"
      by (metis (no_types, lifting) length_map nth_eq_iff_index_eq nth_map)
    with False show ?thesis by simp
  qed
  from a b c show ?thesis by blast
qed

lemma ValidateCode_spec_cases:
  assumes len: "recoveryNameLen \<le> length (Split s)"
  shows "(ValidateCode lib (specStorer pick) u s st = (Return (False, None), st))
    \<or> (\<exists>c \<in> set (matching u (Join (take recoveryNameLen (Split s))) st).
          \<not> used (snd c)
          \<and> specGetByName pick u (Join (take recoveryNameLen (Split s))) st = ((Some c, None), st)
          \<and> CompareHashAndPassword lib (hashedSecret (snd c))
               (fst (FromString lib (Join (drop recoveryNameLen (Split s))))) = None
          \<and> ValidateCode lib (specStorer pick) u s st
               = (Return (True, None), st[fst c := (snd c)\<lparr>used := True\<rparr>]))"
proof -
  let ?nm = "Join (take recoveryNameLen (Split s))"
  have upd: "UpdateBackupCode (specStorer pick) = specUpdate"
    by (simp add: specStorer_def)
  from specGetByName_cases [of u ?nm st pick] show ?thesis
  proof (elim disjE conjE bexE)
    assume "specGetByName pick u ?nm st = ((None, None), st)"
    then have lk: "GetBackupCodeByName (specStorer pick) u ?nm st = ((None, None), st)"
      by (simp add: specStorer_def)
    show ?thesis unfolding ValidateCode_unfold [OF len lk] by simp
  next
    fix c
    assume c: "c \<in> set (matching u ?nm st)"
      and g: "specGetByName pick u ?nm st = ((Some c, None), st)"
    then have lk: "GetBackupCodeByName (specStorer pick) u ?nm st = ((Some c, None), st)"
      by (simp add: specStorer_def)
    from c have m: "fst c < length st" "snd c = st ! fst c"
      by (simp_all add: matching_iff)
    show ?thesis
    proof (cases "\<not> used (snd c) \<and> GetName c = ?nm
        \<and> CompareHashAndPassword lib (hashedSecret (snd c))
             (fst (FromString lib (Join (drop recoveryNameLen (Split s))))) = None")
      case False
      then show ?thesis
        unfolding ValidateCode_unfold [OF len lk]
        by (auto simp: IsUsed_def GetHashedSecret_def split: option.splits)
    next
      case True
      with m have "ValidateCode lib (specStorer pick) u s st
               = (Return (True, None), st[fst c := (snd c)\<lparr>used := True\<rparr>])"
        unfolding ValidateCode_unfold [OF len lk] upd
        by (simp add: IsUsed_def GetHashedSecret_def specUpdate_def SetUsed_def)
      with True c g show ?thesis by blast
    qed
  qed
qed

lemma ValidateCode_spec_store:
  "snd (ValidateCode lib (specStorer pick) u s st) = st
   \<or> (\<exists>i < length st. \<not> used (st ! i)
         \<and> snd (ValidateCode lib (specStorer pick) u s st) = st[i := (st ! i)\<lparr>used := True\<rparr>])"
proof (cases "recoveryNameLen \<le> length (Split s)")
  case False
  then show ?thesis by (simp add: ValidateCode_def)
next
  case True
  from ValidateCode_spec_cases [OF True, of lib pick u st] show ?thesis
    by (auto simp: matching_iff)
qed

lemma grows_refl: "grows st st"
  by (simp add: grows_def)

lemma grows_trans: "grows a b \<Longrightarrow> grows b c \<Longrightarrow> grows a c"
  unfolding grows_def by (metis (no_types, lifting) le_trans less_le_trans)

lemma specAdd_grows: "grows st (snd (specAdd u nm h st))"
  by (simp add: specAdd_def grows_def nth_append)

lemma mark_grows: "i < length st \<Longrightarrow> grows st (st[i := (st ! i)\<lparr>used := True\<rparr>])"
  by (simp add: grows_def nth_list_update)

lemma saveKeys_grows: "grows st (snd (saveKeys (specStorer pick) u ks st))"
proof (induction ks arbitrary: st)
  case Nil
  show ?case by (simp add: grows_refl)
next
  case (Cons k ks)
  have a: "grows st (snd (specAdd u (Name k) (Hash k) st))"
    by (rule specAdd_grows)
  show ?case
  proof (cases "specAdd u (Name k) (Hash k) st")
    case (Pair e st1)
    with a have g: "grows st st1" by simp
    show ?thesis
    proof (cases e)
      case None
      with Pair g Cons.IH [of st1] show ?thesis
        by (auto simp: specStorer_def intro: grows_trans)
    next
      case (Some x)
      with Pair g show ?thesis by (simp add: specStorer_def)
    qed
  qed
qed

lemma CreateCodes_store:
  "snd (snd (CreateCodes lib S u r st)) = st
   \<or> (\<exists>keys. snd (snd (CreateCodes lib S u r st)) = snd (saveKeys S u keys st))"
proof (cases "genKeys lib [0..<numRecoveryKeys] (replicate numRecoveryKeys zeroKey) r")
  case (Pair ke r1)
  obtain keys e where ke: "ke = (keys, e)" by (cases ke)
  show ?thesis
  proof (cases e)
    case None
    with Pair ke have
      "snd (snd (CreateCodes lib S u r st)) = snd (saveKeys S u keys st)"
      by (simp add: CreateCodes_def split: prod.splits option.splits)
    then show ?thesis by blast
  next
    case (Some x)
    with Pair ke show ?thesis by (simp add: CreateCodes_def)
  qed
qed

lemma exec_grows: "grows st (exec lib (specStorer pick) st call)"
proof (cases call)
  case (CallCreateCodes u r)
  with CreateCodes_store [of lib "specStorer pick" u r st] saveKeys_grows [of st pick u]
  show ?thesis by (auto simp: grows_refl)
next
  case (CallIsSupported u)
  then show ?thesis
    by (auto simp: IsSupported_def specStorer_def specGetAll_def grows_refl)
next
  case (CallValidateName u nm)
  then show ?thesis
    by (auto simp: ValidateName_def specStorer_def specGetAll_def grows_refl)
next
  case (CallValidateCode u s)
  with ValidateCode_spec_store [of lib pick u s st] show ?thesis
    by (auto simp: grows_refl mark_grows)
qed

lemma exec_length: "\<not> issues call \<Longrightarrow> length (exec lib (specStorer pick) st call) = length st"
proof (cases call)
  case (CallValidateCode u s)
  with ValidateCode_spec_store [of lib pick u s st] show ?thesis by auto
qed (auto simp: IsSupported_def ValidateName_def specStorer_def specGetAll_def)

lemma exec_spent:
  assumes "spent u nm st" and "\<not> issues call"
  shows "spent u nm (exec lib (specStorer pick) st call)"
  using assms exec_grows [of st lib pick call] exec_length [of call lib pick st]
  unfolding spent_def grows_def by metis

lemma execAll_spent:
  "spent u nm st \<Longrightarrow> \<forall>c \<in> set calls. \<not> issues c \<Longrightarrow>
     spent u nm (execAll lib (specStorer pick) calls st)"
  unfolding execAll_def
proof (induction calls arbitrary: st)
  case Nil
  then show ?case by simp
next
  case (Cons c cs)
  from Cons.prems have "spent u nm (exec lib (specStorer pick) st c)"
    by (simp add: exec_spent)
  with Cons.IH [of "exec lib (specStorer pick) st c"] Cons.prems show ?case by simp
qed

lemma ValidateCode_spent:
  assumes "spent u (Join (take recoveryNameLen (Split s))) st"
    and "recoveryNameLen \<le> length (Split s)"
  shows "ValidateCode lib (specStorer pick) u s st = (Return (False, None), st)"
  using ValidateCode_spec_cases [OF assms(2), of lib pick u st] assms(1)
  by (auto simp: spent_def matching_iff)

lemma ValidateCode_len:
  "fst (ValidateCode lib S u s st) = Return r \<Longrightarrow> recoveryNameLen \<le> length (Split s)"
  by (cases "recoveryNameLen \<le> length (Split s)") (simp_all add: ValidateCode_def)

lemma consumes_fresh:
  assumes saved: "saveKeys (specStorer pick) u keys st0 = (None, st)"
    and m: "m < length keys"
    and nm: "Join (take recoveryNameLen (Split s)) = Name (keys ! m)"
    and ok: "ValidateCode lib (specStorer pick) u s st = (Return (True, e), st1)"
  shows "e = None"
    and "st1 = st[length st0 + m := (recordOf u (keys ! m))\<lparr>used := True\<rparr>]"
    and "spent u (Name (keys ! m)) st1"
    and "specGetByName pick u (Name (keys ! m)) st
           = ((Some (length st0 + m, recordOf u (keys ! m)), None), st)"
    and "CompareHashAndPassword lib (Hash (keys ! m))
           (fst (FromString lib (Join (drop recoveryNameLen (Split s))))) = None"
proof -
  let ?i = "length st0 + m"
  from ok have len: "recoveryNameLen \<le> length (Split s)"
    using ValidateCode_len [of lib "specStorer pick" u s st "(True, e)"] by simp
  from fresh_sole [OF saved m] have
    lt: "?i < length st" and row: "st ! ?i = recordOf u (keys ! m)" and
    sole: "\<forall>j < length st. userID (st ! j) = u \<and> name (st ! j) = Name (keys ! m)
             \<and> \<not> used (st ! j) \<longrightarrow> j = ?i"
    by simp_all
  from ValidateCode_spec_cases [OF len, of lib pick u st] ok nm obtain c where
    c: "c \<in> set (matching u (Name (keys ! m)) st)" and nu: "\<not> used (snd c)" and
    lk: "specGetByName pick u (Name (keys ! m)) st = ((Some c, None), st)" and
    cmp: "CompareHashAndPassword lib (hashedSecret (snd c))
            (fst (FromString lib (Join (drop recoveryNameLen (Split s))))) = None" and
    res: "(Return (True, e), st1) = (Return (True, None), st[fst c := (snd c)\<lparr>used := True\<rparr>])"
    by auto
  from c nu sole have "fst c = ?i"
    by (simp add: matching_iff)
  with c row have ceq: "c = (?i, recordOf u (keys ! m))"
    by (simp add: matching_iff prod_eq_iff)
  from res show "e = None" by simp
  from res ceq show st1: "st1 = st[?i := (recordOf u (keys ! m))\<lparr>used := True\<rparr>]" by simp
  from lk ceq show "specGetByName pick u (Name (keys ! m)) st
           = ((Some (?i, recordOf u (keys ! m)), None), st)" by simp
  from cmp ceq show "CompareHashAndPassword lib (Hash (keys ! m))
           (fst (FromString lib (Join (drop recoveryNameLen (Split s))))) = None"
    by (simp add: recordOf_def)
  show "spent u (Name (keys ! m)) st1"
    unfolding spent_def
  proof (intro allI impI)
    fix j
    assume j: "j < length st1"
      and q: "userID (st1 ! j) = u \<and> name (st1 ! j) = Name (keys ! m)"
    show "used (st1 ! j)"
    proof (cases "j = ?i")
      case True
      with st1 lt show ?thesis by simp
    next
      case False
      with st1 j q have "j < length st" "userID (st ! j) = u \<and> name (st ! j) = Name (keys ! m)"
        "st1 ! j = st ! j"
        by simp_all
      with sole False show ?thesis by metis
    qed
  qed
qed

text \<open>
  When \<open>CreateCodes\<close> returns without an error, its second loop has stored the keys it
  returns, so what follows holds of every batch that \<open>CreateCodes\<close> creates.
\<close>

lemma CreateCodes_saves:
  "CreateCodes lib S u r st0 = ((keys, None), r', st) \<Longrightarrow> saveKeys S u keys st0 = (None, st)"
  by (auto simp: CreateCodes_def split: prod.splits option.splits)

text \<open>
  Claim C1, as amended. Over the Storer of the spec, whichever matching record its lookup
  returns: let the second loop of \<open>CreateCodes\<close> have stored the keys of a batch and let
  \<open>k\<close> be one of them. When \<open>ValidateCode\<close> returns true on a string whose first three
  fields are the name of \<open>k\<close>, the store it leaves is the store before with the record of
  \<open>k\<close> marked used and nothing else changed; after any further calls of \<open>IsSupported\<close>,
  \<open>ValidateName\<close> and \<open>ValidateCode\<close>, \<open>ValidateCode\<close> with the same user and string
  returns \<open>(false, nil)\<close> and changes nothing; and no operation, \<open>CreateCodes\<close> included,
  in any store, resets a used flag that is set.
\<close>

theorem ValidateCode_consumes_fresh_key:
  "(saveKeys (specStorer pick) u keys st0 = (None, st) \<and> m < length keys
    \<and> Join (take recoveryNameLen (Split s)) = Name (keys ! m)
    \<and> ValidateCode lib (specStorer pick) u s st = (Return (True, e), st1)
    \<longrightarrow> st ! (length st0 + m) = recordOf u (keys ! m)
      \<and> st1 = st[length st0 + m := (recordOf u (keys ! m))\<lparr>used := True\<rparr>]
      \<and> (\<forall>calls. (\<forall>c \<in> set calls. \<not> issues c) \<longrightarrow>
            ValidateCode lib (specStorer pick) u s (execAll lib (specStorer pick) calls st1)
              = (Return (False, None), execAll lib (specStorer pick) calls st1)))
   \<and> (\<forall>call st' i. i < length st' \<and> used (st' ! i) \<longrightarrow>
         i < length (exec lib (specStorer pick) st' call)
         \<and> used (exec lib (specStorer pick) st' call ! i))"
proof (intro conjI impI allI)
  assume h: "saveKeys (specStorer pick) u keys st0 = (None, st) \<and> m < length keys
    \<and> Join (take recoveryNameLen (Split s)) = Name (keys ! m)
    \<and> ValidateCode lib (specStorer pick) u s st = (Return (True, e), st1)"
  then have saved: "saveKeys (specStorer pick) u keys st0 = (None, st)" and m: "m < length keys"
    and nm: "Join (take recoveryNameLen (Split s)) = Name (keys ! m)"
    and ok: "ValidateCode lib (specStorer pick) u s st = (Return (True, e), st1)"
    by simp_all
  from fresh_sole [OF saved m]
  show "st ! (length st0 + m) = recordOf u (keys ! m)" by simp
  from consumes_fresh(2) [OF saved m nm ok]
  show "st1 = st[length st0 + m := (recordOf u (keys ! m))\<lparr>used := True\<rparr>]" .
  fix calls :: "'a call list"
  assume quiet: "\<forall>c \<in> set calls. \<not> issues c"
  from ok have len: "recoveryNameLen \<le> length (Split s)"
    using ValidateCode_len [of lib "specStorer pick" u s st "(True, e)"] by simp
  from consumes_fresh(3) [OF saved m nm ok] quiet
  have "spent u (Name (keys ! m)) (execAll lib (specStorer pick) calls st1)"
    by (rule execAll_spent)
  with nm len
  show "ValidateCode lib (specStorer pick) u s (execAll lib (specStorer pick) calls st1)
              = (Return (False, None), execAll lib (specStorer pick) calls st1)"
    by (simp add: ValidateCode_spent)
next
  fix call :: "'a call" and st' :: store and i
  assume "i < length st' \<and> used (st' ! i)"
  with exec_grows [of st' lib pick call]
  show "i < length (exec lib (specStorer pick) st' call)" by (auto simp: grows_def)
next
  fix call :: "'a call" and st' :: store and i
  assume "i < length st' \<and> used (st' ! i)"
  with exec_grows [of st' lib pick call]
  show "used (exec lib (specStorer pick) st' call ! i)" by (auto simp: grows_def)
qed

theorem ValidateCode_consumes_fresh_key_witness:
  "saveKeys (specStorer oldest) ''alice'' [dogKey] shadowStore
     = (None, shadowStore @ [recordOf ''alice'' dogKey])
   \<and> Join (take recoveryNameLen (Split (Name dogKey @ '' '' @ Code dogKey))) = Name dogKey
   \<and> ValidateCode (toyLib streamRead) (specStorer oldest) ''alice''
        (Name dogKey @ '' '' @ Code dogKey) (shadowStore @ [recordOf ''alice'' dogKey])
     = (Return (True, None), shadowStore @ [(recordOf ''alice'' dogKey)\<lparr>used := True\<rparr>])
   \<and> ValidateCode (toyLib streamRead) (specStorer oldest) ''alice''
        (Name dogKey @ '' '' @ Code dogKey)
        (execAll (toyLib streamRead) (specStorer oldest)
           [CallValidateName ''alice'' ''dog dog dog'', CallValidateCode ''alice'' (Code dogKey),
            CallIsSupported ''alice'']
           (shadowStore @ [(recordOf ''alice'' dogKey)\<lparr>used := True\<rparr>]))
     = (Return (False, None),
        execAll (toyLib streamRead) (specStorer oldest)
           [CallValidateName ''alice'' ''dog dog dog'', CallValidateCode ''alice'' (Code dogKey),
            CallIsSupported ''alice'']
           (shadowStore @ [(recordOf ''alice'' dogKey)\<lparr>used := True\<rparr>]))"
proof -
  let ?s = "Name dogKey @ '' '' @ Code dogKey"
  let ?st = "shadowStore @ [recordOf ''alice'' dogKey]"
  let ?st1 = "shadowStore @ [(recordOf ''alice'' dogKey)\<lparr>used := True\<rparr>]"
  let ?calls = "[CallValidateName ''alice'' ''dog dog dog'',
                 CallValidateCode ''alice'' (Code dogKey), CallIsSupported ''alice'']
                :: byte list call list"
  have saved: "saveKeys (specStorer oldest) ''alice'' [dogKey] shadowStore = (None, ?st)"
    by code_simp
  have nm: "Join (take recoveryNameLen (Split ?s)) = Name ([dogKey] ! 0)"
    by code_simp
  have ok: "ValidateCode (toyLib streamRead) (specStorer oldest) ''alice'' ?s ?st
              = (Return (True, None), ?st1)"
    by code_simp
  have quiet: "\<forall>c \<in> set ?calls. \<not> issues c" by simp
  from ValidateCode_consumes_fresh_key
         [of oldest "''alice''" "[dogKey]" shadowStore ?st 0 ?s "toyLib streamRead" None ?st1]
       saved nm ok
  have "\<forall>calls :: byte list call list. (\<forall>c \<in> set calls. \<not> issues c) \<longrightarrow>
          ValidateCode (toyLib streamRead) (specStorer oldest) ''alice'' ?s
            (execAll (toyLib streamRead) (specStorer oldest) calls ?st1)
          = (Return (False, None), execAll (toyLib streamRead) (specStorer oldest) calls ?st1)"
    by simp
  with quiet have "ValidateCode (toyLib streamRead) (specStorer oldest) ''alice'' ?s
            (execAll (toyLib streamRead) (specStorer oldest) ?calls ?st1)
          = (Return (False, None), execAll (toyLib streamRead) (specStorer oldest) ?calls ?st1)"
    by blast
  with saved nm ok show ?thesis by simp
qed

text \<open>
  The claim as stated validates \<open>k.code\<close>, which is the secret phrase alone: its first
  three words are taken for the name. With an earlier code of that name and the rest of the
  phrase as its secret, the call returns true and marks the earlier record, and the record
  of \<open>k\<close> stays unused; without one, the call returns \<open>(false, nil)\<close>.
\<close>

theorem ValidateCode_consumes_fresh_key_counterexample:
  "saveKeys (specStorer oldest) ''alice'' [dogKey] shadowStore
     = (None, shadowStore @ [recordOf ''alice'' dogKey])
   \<and> ValidateCode (toyLib streamRead) (specStorer oldest) ''alice'' (Code dogKey)
        (shadowStore @ [recordOf ''alice'' dogKey])
     = (Return (True, None), [(hd shadowStore)\<lparr>used := True\<rparr>, recordOf ''alice'' dogKey])
   \<and> \<not> used (recordOf ''alice'' dogKey)
   \<and> saveKeys (specStorer oldest) ''alice'' [dogKey] [] = (None, [recordOf ''alice'' dogKey])
   \<and> ValidateCode (toyLib streamRead) (specStorer oldest) ''alice'' (Code dogKey)
        [recordOf ''alice'' dogKey]
     = (Return (False, None), [recordOf ''alice'' dogKey])"
  by code_simp

subsection \<open>Invocations that interleave, over the Storer of the spec\<close>

text \<open>One invocation that takes its two steps is \<open>ValidateCode\<close>.\<close>

lemma threads_sequential:
  "runSched lib S u s [0, 0] ([Ready], st)
     = ([Done (fst (ValidateCode lib S u s st))], snd (ValidateCode lib S u s st))"
proof (cases "recoveryNameLen \<le> length (Split s)")
  case False
  then show ?thesis
    by (simp add: runSched_def schedStep_def lookupStep_def ValidateCode_def)
next
  case True
  obtain c e st1 where lk:
    "GetBackupCodeByName S u (Join (take recoveryNameLen (Split s))) st = ((c, e), st1)"
    by (metis prod.exhaust)
  from True lk show ?thesis
    unfolding ValidateCode_unfold [OF True lk]
    by (auto simp: runSched_def schedStep_def lookupStep_def updateStep_def Let_def
        split: option.splits prod.splits)
qed

lemma threadStep_progress:
  "min 2 (Suc (progress t)) \<le> progress (fst (threadStep lib S u s t st))"
proof (cases t)
  case Ready
  then show ?thesis
    by (auto simp: lookupStep_def Let_def split: option.splits prod.splits)
next
  case (Fetched c)
  then show ?thesis
    by (auto simp: updateStep_def split: option.splits prod.splits)
next
  case (Done r)
  then show ?thesis by simp
qed

lemma runSched_snoc:
  "runSched lib S u s (sched @ [x]) cfg = schedStep lib S u s (runSched lib S u s sched cfg) x"
  by (simp add: runSched_def)

lemma runSched_length: "length (fst (runSched lib S u s sched cfg)) = length (fst cfg)"
proof (induction sched rule: rev_induct)
  case Nil
  show ?case by (simp add: runSched_def)
next
  case (snoc x xs)
  then show ?case
    by (auto simp: runSched_snoc schedStep_def split: prod.splits)
qed

lemma runSched_progress:
  "i < length (fst cfg) \<Longrightarrow>
     min 2 (count_list sched i) \<le> progress (fst (runSched lib S u s sched cfg) ! i)"
proof (induction sched rule: rev_induct)
  case Nil
  show ?case by (simp add: runSched_def)
next
  case (snoc x xs)
  let ?c = "runSched lib S u s xs cfg"
  have len: "length (fst ?c) = length (fst cfg)" by (rule runSched_length)
  from snoc have ih: "min 2 (count_list xs i) \<le> progress (fst ?c ! i)" by simp
  show ?case
  proof (cases "x = i")
    case True
    obtain t st where ts: "threadStep lib S u s (fst ?c ! i) (snd ?c) = (t, st)"
      by (cases "threadStep lib S u s (fst ?c ! i) (snd ?c)")
    from threadStep_progress [of "fst ?c ! i" lib S u s "snd ?c"] ts
    have "min 2 (Suc (progress (fst ?c ! i))) \<le> progress t" by simp
    with ih have "min 2 (Suc (count_list xs i)) \<le> progress t" by simp
    with True ts snoc.prems len show ?thesis
      by (simp add: runSched_snoc schedStep_def)
  next
    case False
    with ih snoc.prems len show ?thesis
      by (auto simp: runSched_snoc schedStep_def split: prod.splits)
  qed
qed

lemma progress_done: "2 \<le> progress t \<Longrightarrow> \<exists>r. t = Done r"
  by (cases t) simp_all

lemma runSched_all_done:
  assumes "\<forall>i < N. 2 \<le> count_list sched i"
    and "runSched lib S u s sched (replicate N Ready, st) = (ts, st')"
  shows "length ts = N \<and> (\<forall>i < N. \<exists>r. ts ! i = Done r)"
proof -
  from runSched_length [of lib S u s sched "(replicate N Ready, st)"] assms(2)
  have len: "length ts = N" by simp
  have "\<exists>r. ts ! i = Done r" if i: "i < N" for i
  proof -
    from runSched_progress [of i "(replicate N Ready, st)" sched lib S u s] i assms
    have "2 \<le> progress (ts ! i)" by simp
    then show ?thesis by (rule progress_done)
  qed
  with len show ?thesis by blast
qed

lemma lookupStep_spent:
  assumes "spent u (Join (take recoveryNameLen (Split s))) st"
    and "recoveryNameLen \<le> length (Split s)"
  shows "lookupStep lib (specStorer pick) u s st = (Done (Return (False, None)), st)"
proof -
  let ?nm = "Join (take recoveryNameLen (Split s))"
  from specGetByName_cases [of u ?nm st pick] show ?thesis
  proof (elim disjE conjE bexE)
    assume "specGetByName pick u ?nm st = ((None, None), st)"
    with assms(2) show ?thesis
      by (simp add: lookupStep_def specStorer_def)
  next
    fix c
    assume c: "c \<in> set (matching u ?nm st)"
      and g: "specGetByName pick u ?nm st = ((Some c, None), st)"
    from c assms(1) have "IsUsed c"
      by (auto simp: matching_iff spent_def IsUsed_def)
    with g assms(2) show ?thesis
      by (simp add: lookupStep_def specStorer_def)
  qed
qed

lemma race_invariant:
  fixes b0 :: BackupCode
  assumes i0: "i0 < length st" and row: "st ! i0 = b0" and nu: "\<not> used b0"
    and who: "userID b0 = u" "name b0 = Join (take recoveryNameLen (Split s))"
    and sole: "\<forall>j < length st. userID (st ! j) = u
                 \<and> name (st ! j) = Join (take recoveryNameLen (Split s)) \<and> \<not> used (st ! j)
                 \<longrightarrow> j = i0"
    and lk: "specGetByName pick u (Join (take recoveryNameLen (Split s))) st
               = ((Some (i0, b0), None), st)"
    and cmp: "CompareHashAndPassword lib (hashedSecret b0)
                (fst (FromString lib (Join (drop recoveryNameLen (Split s))))) = None"
    and len: "recoveryNameLen \<le> length (Split s)"
  shows "runSched lib (specStorer pick) u s sched (replicate N Ready, st) = (ts, st') \<Longrightarrow>
     length ts = N
     \<and> ((st' = st \<and> (\<forall>j < N. ts ! j = Ready \<or> ts ! j = Fetched (i0, b0\<lparr>used := True\<rparr>)))
        \<or> (st' = st[i0 := b0\<lparr>used := True\<rparr>]
            \<and> (\<exists>w < N. ts ! w = Done (Return (True, None))
                 \<and> (\<forall>j < N. j \<noteq> w \<longrightarrow>
                       ts ! j = Ready \<or> ts ! j = Fetched (i0, b0\<lparr>used := True\<rparr>)
                       \<or> (\<exists>e. ts ! j = Done (Return (False, e)))))))"
proof (induction sched arbitrary: ts st' rule: rev_induct)
  case Nil
  then show ?case by (auto simp: runSched_def)
next
  case (snoc x xs)
  let ?nm = "Join (take recoveryNameLen (Split s))"
  let ?c1 = "(i0, b0\<lparr>used := True\<rparr>)"
  let ?su = "st[i0 := b0\<lparr>used := True\<rparr>]"
  have s1: "lookupStep lib (specStorer pick) u s st = (Fetched ?c1, st)"
    using lk cmp len nu who
    by (simp add: lookupStep_def specStorer_def GetName_def IsUsed_def GetHashedSecret_def
        SetUsed_def)
  have s2: "updateStep (specStorer pick) ?c1 st = (Done (Return (True, None)), ?su)"
    using i0 row nu by (simp add: updateStep_def specStorer_def specUpdate_def)
  have sp: "spent u ?nm ?su"
    unfolding spent_def
  proof (intro allI impI)
    fix j
    assume j: "j < length ?su" and q: "userID (?su ! j) = u \<and> name (?su ! j) = ?nm"
    show "used (?su ! j)"
    proof (cases "j = i0")
      case True
      with i0 show ?thesis by simp
    next
      case False
      with j q have "j < length st" "userID (st ! j) = u \<and> name (st ! j) = ?nm" "?su ! j = st ! j"
        by simp_all
      with sole False show ?thesis by metis
    qed
  qed
  have s3: "lookupStep lib (specStorer pick) u s ?su = (Done (Return (False, None)), ?su)"
    using sp len by (rule lookupStep_spent)
  have s4: "updateStep (specStorer pick) ?c1 ?su
              = (Done (Return (False, Some (StorageError ''code already used''))), ?su)"
    using i0 by (simp add: updateStep_def specStorer_def specUpdate_def)
  obtain ts0 st0 where prev:
    "runSched lib (specStorer pick) u s xs (replicate N Ready, st) = (ts0, st0)"
    by (metis prod.exhaust)
  from snoc.IH [OF prev] have l0: "length ts0 = N" and
    inv: "(st0 = st \<and> (\<forall>j < N. ts0 ! j = Ready \<or> ts0 ! j = Fetched ?c1))
        \<or> (st0 = ?su
            \<and> (\<exists>w < N. ts0 ! w = Done (Return (True, None))
                 \<and> (\<forall>j < N. j \<noteq> w \<longrightarrow>
                       ts0 ! j = Ready \<or> ts0 ! j = Fetched ?c1
                       \<or> (\<exists>e. ts0 ! j = Done (Return (False, e))))))"
    by simp_all
  from snoc.prems prev have step:
    "schedStep lib (specStorer pick) u s (ts0, st0) x = (ts, st')"
    by (simp add: runSched_snoc)
  show ?case
  proof (cases "x < N")
    case False
    with step l0 have "ts = ts0" "st' = st0" by (simp_all add: schedStep_def)
    with l0 inv show ?thesis by simp
  next
    case True
    from inv show ?thesis
    proof (elim disjE conjE exE)
      assume a: "st0 = st" and b: "\<forall>j < N. ts0 ! j = Ready \<or> ts0 ! j = Fetched ?c1"
      from b True have "ts0 ! x = Ready \<or> ts0 ! x = Fetched ?c1" by simp
      then show ?thesis
      proof
        assume r: "ts0 ! x = Ready"
        with step a l0 True s1 have t: "ts = ts0[x := Fetched ?c1]" "st' = st"
          by (simp_all add: schedStep_def)
        have "\<forall>j < N. ts ! j = Ready \<or> ts ! j = Fetched ?c1"
          using t b l0 \<open>x < N\<close> by (auto simp: nth_list_update)
        with t l0 show ?thesis by simp
      next
        assume f: "ts0 ! x = Fetched ?c1"
        with step a l0 True s2 have t: "ts = ts0[x := Done (Return (True, None))]" "st' = ?su"
          by (simp_all add: schedStep_def)
        have "ts ! x = Done (Return (True, None))" using t l0 True by simp
        moreover have "\<forall>j < N. j \<noteq> x \<longrightarrow> ts ! j = Ready \<or> ts ! j = Fetched ?c1
                         \<or> (\<exists>e. ts ! j = Done (Return (False, e)))"
          using t b l0 \<open>x < N\<close> by (auto simp: nth_list_update)
        ultimately have "\<exists>w < N. ts ! w = Done (Return (True, None))
                 \<and> (\<forall>j < N. j \<noteq> w \<longrightarrow>
                       ts ! j = Ready \<or> ts ! j = Fetched ?c1
                       \<or> (\<exists>e. ts ! j = Done (Return (False, e))))"
          using True by blast
        with t l0 show ?thesis by simp
      qed
    next
      fix w
      assume a: "st0 = ?su" and w: "w < N" "ts0 ! w = Done (Return (True, None))"
        and b: "\<forall>j < N. j \<noteq> w \<longrightarrow> ts0 ! j = Ready \<or> ts0 ! j = Fetched ?c1
                  \<or> (\<exists>e. ts0 ! j = Done (Return (False, e)))"
      have keep: ?thesis if "st' = ?su" and "length ts = N"
        and "ts ! w = Done (Return (True, None))"
        and "\<forall>j < N. j \<noteq> w \<longrightarrow> ts ! j = Ready \<or> ts ! j = Fetched ?c1
                  \<or> (\<exists>e. ts ! j = Done (Return (False, e)))"
        using that w by blast
      show ?thesis
      proof (cases "x = w")
        case True
        with step a l0 w have "ts = ts0[w := ts0 ! w]" "st' = ?su"
          by (auto simp: schedStep_def)
        then have "ts = ts0" "st' = ?su" by simp_all
        with l0 w b show ?thesis by (intro keep) simp_all
      next
        case False
        with b \<open>x < N\<close> have "ts0 ! x = Ready \<or> ts0 ! x = Fetched ?c1
                  \<or> (\<exists>e. ts0 ! x = Done (Return (False, e)))" by simp
        then obtain e where t: "ts = ts0[x := Done (Return (False, e))]" "st' = ?su"
        proof (elim disjE exE)
          assume "ts0 ! x = Ready"
          with step a l0 \<open>x < N\<close> s3 have "ts = ts0[x := Done (Return (False, None))]" "st' = ?su"
            by (simp_all add: schedStep_def)
          then show ?thesis by (rule that)
        next
          assume "ts0 ! x = Fetched ?c1"
          with step a l0 \<open>x < N\<close> s4
          have "ts = ts0[x := Done (Return (False, Some (StorageError ''code already used'')))]"
            "st' = ?su"
            by (simp_all add: schedStep_def)
          then show ?thesis by (rule that)
        next
          fix e
          assume d: "ts0 ! x = Done (Return (False, e))"
          with step a l0 \<open>x < N\<close> have "ts = ts0[x := Done (Return (False, e))]" "st' = ?su"
            by (simp_all add: schedStep_def)
          then show ?thesis by (rule that)
        qed
        show ?thesis
        proof (intro keep)
          show "st' = ?su" by (rule t)
          show "length ts = N" using t l0 by simp
          show "ts ! w = Done (Return (True, None))" using t w False by simp
          show "\<forall>j < N. j \<noteq> w \<longrightarrow> ts ! j = Ready \<or> ts ! j = Fetched ?c1
                  \<or> (\<exists>e. ts ! j = Done (Return (False, e)))"
            using t b l0 \<open>x < N\<close> by (auto simp: nth_list_update)
        qed
      qed
    qed
  qed
qed

text \<open>
  Claim C10, as amended. Over the Storer of the spec, whose update is conditional: let the
  second loop of \<open>CreateCodes\<close> have stored the keys of a batch, let \<open>k\<close> be one of
  them, and let \<open>s\<close> be a string whose first three fields are the name of \<open>k\<close> and on
  which one invocation alone returns true. Then \<open>N > 0\<close> invocations of \<open>ValidateCode\<close>
  on \<open>s\<close>, interleaved by any schedule that gives each of them its two steps, end with
  exactly one of them returning \<open>(true, nil)\<close> and every other returning false, and with
  the record of \<open>k\<close> marked used.
\<close>

theorem concurrent_validation_one_winner:
  assumes saved: "saveKeys (specStorer pick) u keys st0 = (None, st)"
    and m: "m < length keys"
    and nm: "Join (take recoveryNameLen (Split s)) = Name (keys ! m)"
    and ok: "fst (ValidateCode lib (specStorer pick) u s st) = Return (True, None)"
    and N: "0 < N"
    and fair: "\<forall>i < N. 2 \<le> count_list sched i"
    and run: "runSched lib (specStorer pick) u s sched (replicate N Ready, st) = (ts, st')"
  shows "length ts = N
    \<and> (\<exists>w < N. ts ! w = Done (Return (True, None))
          \<and> (\<forall>j < N. j \<noteq> w \<longrightarrow> (\<exists>e. ts ! j = Done (Return (False, e)))))
    \<and> st' = st[length st0 + m := (recordOf u (keys ! m))\<lparr>used := True\<rparr>]"
proof -
  let ?i = "length st0 + m"
  let ?b = "recordOf u (keys ! m)"
  obtain st1 where ok': "ValidateCode lib (specStorer pick) u s st = (Return (True, None), st1)"
    using ok by (metis prod.collapse)
  from ok' have len: "recoveryNameLen \<le> length (Split s)"
    using ValidateCode_len [of lib "specStorer pick" u s st "(True, None)"] by simp
  from fresh_sole [OF saved m] have
    lt: "?i < length st" and row: "st ! ?i = ?b" and
    sole: "\<forall>j < length st. userID (st ! j) = u
             \<and> name (st ! j) = Join (take recoveryNameLen (Split s)) \<and> \<not> used (st ! j)
             \<longrightarrow> j = ?i"
    by (simp_all add: nm)
  have nu: "\<not> used ?b" and who: "userID ?b = u" "name ?b = Join (take recoveryNameLen (Split s))"
    by (simp_all add: recordOf_def nm)
  from consumes_fresh(4) [OF saved m nm ok'] have
    lk: "specGetByName pick u (Join (take recoveryNameLen (Split s))) st
           = ((Some (?i, ?b), None), st)"
    by (simp add: nm)
  from consumes_fresh(5) [OF saved m nm ok'] have
    cmp: "CompareHashAndPassword lib (hashedSecret ?b)
            (fst (FromString lib (Join (drop recoveryNameLen (Split s))))) = None"
    by (simp add: recordOf_def)
  from runSched_all_done [OF fair run] have
    l: "length ts = N" and fin: "\<forall>i < N. \<exists>r. ts ! i = Done r"
    by simp_all
  from race_invariant [OF lt row nu who sole lk cmp len run]
  have inv: "(st' = st \<and> (\<forall>j < N. ts ! j = Ready \<or> ts ! j = Fetched (?i, ?b\<lparr>used := True\<rparr>)))
        \<or> (st' = st[?i := ?b\<lparr>used := True\<rparr>]
            \<and> (\<exists>w < N. ts ! w = Done (Return (True, None))
                 \<and> (\<forall>j < N. j \<noteq> w \<longrightarrow>
                       ts ! j = Ready \<or> ts ! j = Fetched (?i, ?b\<lparr>used := True\<rparr>)
                       \<or> (\<exists>e. ts ! j = Done (Return (False, e))))))"
    by simp
  from fin N have d0: "\<exists>r. ts ! 0 = Done r" by simp
  from inv show ?thesis
  proof (elim disjE conjE exE)
    assume "\<forall>j < N. ts ! j = Ready \<or> ts ! j = Fetched (?i, ?b\<lparr>used := True\<rparr>)"
    with N d0 show ?thesis by auto
  next
    fix w
    assume su: "st' = st[?i := ?b\<lparr>used := True\<rparr>]" and w: "w < N"
      "ts ! w = Done (Return (True, None))"
      and rest: "\<forall>j < N. j \<noteq> w \<longrightarrow>
                       ts ! j = Ready \<or> ts ! j = Fetched (?i, ?b\<lparr>used := True\<rparr>)
                       \<or> (\<exists>e. ts ! j = Done (Return (False, e)))"
    have "\<exists>e. ts ! j = Done (Return (False, e))" if j: "j < N" "j \<noteq> w" for j
    proof -
      from fin j obtain r where r: "ts ! j = Done r" by blast
      from rest j have "ts ! j = Ready \<or> ts ! j = Fetched (?i, ?b\<lparr>used := True\<rparr>)
                       \<or> (\<exists>e. ts ! j = Done (Return (False, e)))" by blast
      with r show ?thesis by auto
    qed
    with l su w show ?thesis by blast
  qed
qed

theorem concurrent_validation_one_winner_witness:
  "saveKeys (specStorer oldest) ''alice'' [dogKey] shadowStore
     = (None, shadowStore @ [recordOf ''alice'' dogKey])
   \<and> fst (ValidateCode (toyLib streamRead) (specStorer oldest) ''alice''
            (Name dogKey @ '' '' @ Code dogKey) (shadowStore @ [recordOf ''alice'' dogKey]))
       = Return (True, None)
   \<and> runSched (toyLib streamRead) (specStorer oldest) ''alice''
        (Name dogKey @ '' '' @ Code dogKey) [0, 1, 2, 2, 0, 1]
        (replicate 3 Ready, shadowStore @ [recordOf ''alice'' dogKey])
     = ([Done (Return (False, Some (StorageError ''code already used''))),
         Done (Return (False, Some (StorageError ''code already used''))),
         Done (Return (True, None))],
        shadowStore @ [(recordOf ''alice'' dogKey)\<lparr>used := True\<rparr>])"
proof -
  let ?s = "Name dogKey @ '' '' @ Code dogKey"
  let ?st = "shadowStore @ [recordOf ''alice'' dogKey]"
  have saved: "saveKeys (specStorer oldest) ''alice'' [dogKey] shadowStore = (None, ?st)"
    by code_simp
  have m: "(0::nat) < length [dogKey]" by simp
  have nm: "Join (take recoveryNameLen (Split ?s)) = Name ([dogKey] ! 0)"
    by code_simp
  have ok: "fst (ValidateCode (toyLib streamRead) (specStorer oldest) ''alice'' ?s ?st)
              = Return (True, None)"
    by code_simp
  have N: "(0::nat) < 3" by simp
  have fair: "\<forall>i < 3. 2 \<le> count_list [0, 1, 2, 2, 0, 1] (i::nat)"
    by (simp add: less_Suc_eq numeral_3_eq_3)
  have run: "runSched (toyLib streamRead) (specStorer oldest) ''alice'' ?s [0, 1, 2, 2, 0, 1]
        (replicate 3 Ready, ?st)
     = ([Done (Return (False, Some (StorageError ''code already used''))),
         Done (Return (False, Some (StorageError ''code already used''))),
         Done (Return (True, None))],
        shadowStore @ [(recordOf ''alice'' dogKey)\<lparr>used := True\<rparr>])"
    by code_simp
  from concurrent_validation_one_winner [OF saved m nm ok N fair run] saved ok run
  show ?thesis by simp
qed

text \<open>
  The claim as stated runs the invocations on \<open>k.code\<close>, the secret phrase alone: on the
  store that holds the fresh code, two of them, interleaved, both return \<open>(false, nil)\<close>.
\<close>

theorem concurrent_validation_one_winner_counterexample:
  "saveKeys (specStorer oldest) ''alice'' [dogKey] [] = (None, [recordOf ''alice'' dogKey])
   \<and> runSched (toyLib streamRead) (specStorer oldest) ''alice'' (Code dogKey) [0, 1, 0, 1]
        (replicate 2 Ready, [recordOf ''alice'' dogKey])
     = ([Done (Return (False, None)), Done (Return (False, None))],
        [recordOf ''alice'' dogKey])"
  by code_simp

text \<open>
  With the unconditional update in place of the conditional one, two interleaved
  invocations on the full string both return true.
\<close>

lemma plain_update_two_winners:
  "runSched (toyLib streamRead) (plainStorer oldest) ''alice''
     (Name dogKey @ '' '' @ Code dogKey) [0, 1, 0, 1]
     (replicate 2 Ready, [recordOf ''alice'' dogKey])
   = ([Done (Return (True, None)), Done (Return (True, None))],
      [(recordOf ''alice'' dogKey)\<lparr>used := True\<rparr>])"
  by code_simp

end
